theory Spec2Isabelle
  imports Main "HOL-Library.Word"
begin

unbundle bit_operations_syntax

section \<open>The IPVS consistent-hashing scheduler (ip\_vs\_ch\_core.c)\<close>

text \<open>
  The scheduler keeps, per service, a table \<open>ip_vs_ch_bucket\<close> holding a counter, a
  consistent-hash ring and the list of node entries it has put on the ring. The
  development follows the C file function by function. Kernel memory is explicit: the
  destinations live in a store addressed by pointers, every \<open>kmalloc\<close> takes its
  outcome from a list of outcomes carried in the state, so that a failing allocation
  is an input like any other, and the state says whether released memory keeps its
  contents, so that a read of released memory is one too.
\<close>

subsection \<open>Kernel types\<close>

type_synonym u16 = "16 word"
type_synonym u32 = "32 word"

text \<open>
  \<open>union nf_inet_addr\<close>: four 32-bit words \<open>all[4]\<close>; the member \<open>ip\<close> overlays
  \<open>all[0]\<close>, an IPv6 address fills all four.
\<close>

record nf_inet_addr =
  all0 :: u32
  all1 :: u32
  all2 :: u32
  all3 :: u32

definition ip :: "nf_inet_addr \<Rightarrow> u32" where
  "ip a = all0 a"

text \<open>
  \<open>struct ip_vs_dest\<close>, the fields the scheduler touches. \<open>weight\<close> and \<open>refcnt\<close> are
  \<open>atomic_t\<close>, a 32-bit \<open>int\<close>: \<open>weight\<close> is read as a signed value, and increments
  wrap around.
\<close>

record ip_vs_dest =
  addr :: nf_inet_addr
  port :: u16
  flags :: u32
  weight :: u32
  refcnt :: u32

type_synonym dest_ptr = nat

text \<open>
  The flag bits of \<open>ip_vs_dest.flags\<close> and the error number, as the kernel headers
  define them.
\<close>

definition IP_VS_DEST_F_AVAILABLE :: u32 where
  "IP_VS_DEST_F_AVAILABLE = 0x0001"

definition IP_VS_DEST_F_OVERLOAD :: u32 where
  "IP_VS_DEST_F_OVERLOAD = 0x0002"

definition ENOMEM :: int where
  "ENOMEM = 12"

definition REPLICA :: u32 where
  "REPLICA = 160"

text \<open>
  The kernel memory the module works on: the destination objects by address, the
  outcomes of the coming \<open>kmalloc\<close> calls (\<open>False\<close> is a \<open>NULL\<close> return; once the list
  is used up every allocation succeeds), and what the allocator does with an object
  that \<open>kfree\<close> has released: \<open>kfree_keeps\<close> holds when a released object still reads
  as it did before the release and stores into it disturb nothing (an allocator that
  leaves released objects alone), and fails when the allocator takes such an object
  over (for its free list, or to poison it).
\<close>

record kmem =
  dests :: "dest_ptr \<Rightarrow> ip_vs_dest"
  allocs :: "bool list"
  kfree_keeps :: bool

definition kmalloc :: "kmem \<Rightarrow> bool \<times> kmem" where
  "kmalloc s = (case allocs s of [] \<Rightarrow> (True, s) | b # bs \<Rightarrow> (b, s\<lparr>allocs := bs\<rparr>))"

definition atomic_inc_refcnt :: "dest_ptr \<Rightarrow> kmem \<Rightarrow> kmem" where
  "atomic_inc_refcnt d s =
     s\<lparr>dests := (dests s)(d := (dests s d)\<lparr>refcnt := refcnt (dests s d) + 1\<rparr>)\<rparr>"

definition atomic_dec_refcnt :: "dest_ptr \<Rightarrow> kmem \<Rightarrow> kmem" where
  "atomic_dec_refcnt d s =
     s\<lparr>dests := (dests s)(d := (dests s d)\<lparr>refcnt := refcnt (dests s d) - 1\<rparr>)\<rparr>"

text \<open>
  \<open>ntohl\<close> on a little-endian host: the four bytes of the word in reverse order
  (byte \<open>k\<close> of \<open>w\<close> is \<open>take_bit 8 (drop_bit (8 * k) w)\<close>).
\<close>

definition ntohl :: "u32 \<Rightarrow> u32" where
  "ntohl w = push_bit 24 (take_bit 8 w) OR push_bit 16 (take_bit 8 (drop_bit 8 w))
             OR push_bit 8 (take_bit 8 (drop_bit 16 w)) OR take_bit 8 (drop_bit 24 w)"

subsection \<open>Formatting with \<open>%u\<close>\<close>

text \<open>\<open>sprintf\<close> with \<open>%u\<close>: the decimal digits of an unsigned number, no padding.\<close>

definition digit_char :: "nat \<Rightarrow> char" where
  "digit_char d = ''0123456789'' ! d"

fun sprintf_u :: "nat \<Rightarrow> string" where
  "sprintf_u n = (if n < 10 then [digit_char n]
                  else sprintf_u (n div 10) @ [digit_char (n mod 10)])"

declare sprintf_u.simps [simp del]

subsection \<open>The consistent-hash ring (conhash.h)\<close>

text \<open>
  \<open>struct node_s\<close> is declared in conhash.h; the scheduler uses its identity string,
  its replica count and the \<open>dest\<close> pointer (\<open>None\<close> is \<open>NULL\<close>).
\<close>

record node_s =
  iden :: string
  replicas :: u32
  dest :: "dest_ptr option"

text \<open>
  The ring library behind conhash.h (\<open>conhash_init\<close>, \<open>conhash_set_node\<close>,
  \<open>conhash_add_node\<close>, \<open>conhash_del_node\<close>, \<open>conhash_lookup\<close>) is not part of the
  source file. Its state is kept here as the sequence of the nodes that are on the
  ring, in the order they were added; a node stands for \<open>replicas\<close> virtual nodes. The
  ring refers to the node embedded in a list entry; the only write to such a node
  after it was added (\<open>dest = NULL\<close> in the flush) is followed at once by its removal,
  so the sequence keeps the nodes as they were when added.
\<close>

type_synonym conhash_s = "node_s list"

text \<open>
  Modelled from the spec: \<open>conhash_init\<close>, absent from the source file, hands out a new
  ring, which is empty. The C code does not test its result.
\<close>

definition conhash_init :: conhash_s where
  "conhash_init = []"

text \<open>
  Modelled from the spec: \<open>conhash_set_node\<close>, absent from the source file, fills in the
  identity string and the number of replicas of a node.
\<close>

definition conhash_set_node :: "node_s \<Rightarrow> string \<Rightarrow> u32 \<Rightarrow> node_s" where
  "conhash_set_node node str replica = node\<lparr>iden := str, replicas := replica\<rparr>"

text \<open>
  Modelled from the spec: \<open>conhash_add_node\<close>, absent from the source file, puts the
  virtual nodes of a node on the ring.
\<close>

definition conhash_add_node :: "conhash_s \<Rightarrow> node_s \<Rightarrow> conhash_s" where
  "conhash_add_node conhash node = conhash @ [node]"

text \<open>
  Modelled from the spec: \<open>conhash_del_node\<close>, absent from the source file, removes by
  identity and does nothing when the identity is not on the ring.
\<close>

definition conhash_del_node :: "conhash_s \<Rightarrow> node_s \<Rightarrow> conhash_s" where
  "conhash_del_node conhash node = filter (\<lambda>m. iden m \<noteq> iden node) conhash"

text \<open>
  Modelled from the spec: the number of virtual nodes on the ring, which the absent
  library keeps; each node counts for its replicas.
\<close>

definition conhash_vnodes :: "conhash_s \<Rightarrow> nat" where
  "conhash_vnodes conhash = sum_list (map (\<lambda>m. unat (replicas m)) conhash)"

text \<open>
  \<open>conhash_lookup\<close> is a parameter \<open>lk\<close> of everything that calls it: any function
  from the ring and a key string to a node or \<open>NULL\<close>. Every theorem below holds for
  every such function.
\<close>

type_synonym conhash_lookup = "conhash_s \<Rightarrow> string \<Rightarrow> node_s option"

subsection \<open>The table and the service\<close>

text \<open>
  \<open>struct ip_vs_ch_bucket\<close>: \<open>count\<close> is an \<open>unsigned int\<close>; \<open>node_head\<close> is the list of
  \<open>struct node_list\<close> entries, each embedding one \<open>node_s\<close>. The ring refers to the
  nodes embedded in these entries.
\<close>

record ip_vs_ch_bucket =
  count :: u32
  conhash :: conhash_s
  node_head :: "node_s list"

text \<open>
  \<open>struct ip_vs_service\<close>: the address family, the list of destinations and the
  scheduler's private pointer \<open>sched_data\<close> (\<open>None\<close> when there is no table).
\<close>

record ip_vs_service =
  af :: u16
  destinations :: "dest_ptr list"
  sched_data :: "ip_vs_ch_bucket option"

text \<open>A packet, as far as the scheduler reads it: the source address of its header.\<close>

record sk_buff =
  saddr :: nf_inet_addr

subsection \<open>\<open>ip_vs_ch_get\<close>\<close>

text \<open>
  The key is \<open>"%u:%u"\<close> of \<open>ntohl(addr->ip)\<close> and \<open>sport\<close>. \<open>sport\<close> is a 16-bit
  parameter; \<open>af\<close> is not used.
\<close>

definition ch_key :: "nf_inet_addr \<Rightarrow> u16 \<Rightarrow> string" where
  "ch_key a sport = sprintf_u (unat (ntohl (ip a))) @ '':'' @ sprintf_u (unat sport)"

definition ip_vs_ch_get ::
  "conhash_lookup \<Rightarrow> u16 \<Rightarrow> ip_vs_ch_bucket \<Rightarrow> nf_inet_addr \<Rightarrow> u16 \<Rightarrow> dest_ptr option" where
  "ip_vs_ch_get lk a tbl ad sport =
     (case lk (conhash tbl) (ch_key ad sport) of
        None \<Rightarrow> None
      | Some node \<Rightarrow> dest node)"

subsection \<open>\<open>ip_vs_ch_assign\<close>\<close>

text \<open>The identity string of a destination's node: \<open>"%u"\<close> of \<open>ntohl(dest->addr.ip)\<close>.\<close>

definition ch_node_iden :: "ip_vs_dest \<Rightarrow> string" where
  "ch_node_iden d = sprintf_u (unat (ntohl (ip (addr d))))"

text \<open>
  The body of \<open>list_for_each_entry(dest, &svc->destinations, n_list)\<close>. The result is
  the return value, the table and the memory. A failed \<open>kmalloc\<close> returns \<open>-ENOMEM\<close>
  at once and keeps what the earlier rounds did.
\<close>

fun assign_loop ::
  "dest_ptr list \<Rightarrow> ip_vs_ch_bucket \<Rightarrow> kmem \<Rightarrow> int \<times> ip_vs_ch_bucket \<times> kmem" where
  "assign_loop [] tbl s = (0, tbl, s)"
| "assign_loop (d # ds) tbl s =
     (let w = weight (dests s d) in
      if 0 <s w then
        (case kmalloc s of (ok, s1) \<Rightarrow>
           if \<not> ok then (- ENOMEM, tbl, s1)
           else
             let s2 = atomic_inc_refcnt d s1;
                 str = ch_node_iden (dests s2 d);
                 node = conhash_set_node \<lparr>iden = [], replicas = 0, dest = Some d\<rparr>
                          str (w * REPLICA)
             in assign_loop ds
                  (tbl\<lparr>node_head := node_head tbl @ [node],
                       conhash := conhash_add_node (conhash tbl) node,
                       count := count tbl + 1\<rparr>) s2)
      else assign_loop ds tbl s)"

definition ip_vs_ch_assign ::
  "ip_vs_ch_bucket \<Rightarrow> ip_vs_service \<Rightarrow> kmem \<Rightarrow> int \<times> ip_vs_ch_bucket \<times> kmem" where
  "ip_vs_ch_assign tbl svc s = assign_loop (destinations svc) (tbl\<lparr>node_head := []\<rparr>) s"

subsection \<open>\<open>ip_vs_ch_flush\<close>\<close>

text \<open>
  The body of \<open>list_for_each_entry(nl, &tbl->node_head, n_list)\<close>: release the
  destination if the entry has one, take the node off the ring, \<open>kfree\<close> the entry,
  decrement \<open>count\<close>. The loop is not the \<open>_safe\<close> variant: to advance it reads
  \<open>nl->n_list.next\<close> from the entry that the body has just released. That read happens
  after every round. Where released memory does not keep its contents the run has no
  defined continuation, which is the result \<open>None\<close>.
\<close>

fun flush_loop ::
  "node_s list \<Rightarrow> ip_vs_ch_bucket \<Rightarrow> kmem \<Rightarrow> (ip_vs_ch_bucket \<times> kmem) option" where
  "flush_loop [] tbl s = Some (tbl, s)"
| "flush_loop (nl # nls) tbl s =
     (let s1 = (case dest nl of Some d \<Rightarrow> atomic_dec_refcnt d s | None \<Rightarrow> s);
          nl1 = (case dest nl of Some d \<Rightarrow> nl\<lparr>dest := None\<rparr> | None \<Rightarrow> nl);
          tbl1 = tbl\<lparr>conhash := conhash_del_node (conhash tbl) nl1, count := count tbl - 1\<rparr>
      in if kfree_keeps s1 then flush_loop nls tbl1 s1 else None)"

text \<open>
  After the loop, \<open>list_del(&tbl->node_head)\<close> stores into the first and the last entry
  of the list, both released by then, unless the list is empty; then \<open>count\<close> is set
  to 0.
\<close>

definition ip_vs_ch_flush ::
  "ip_vs_ch_bucket \<Rightarrow> kmem \<Rightarrow> (ip_vs_ch_bucket \<times> kmem) option" where
  "ip_vs_ch_flush tbl s =
     (case flush_loop (node_head tbl) tbl s of
        None \<Rightarrow> None
      | Some (tbl1, s1) \<Rightarrow>
          if node_head tbl \<noteq> [] \<and> \<not> kfree_keeps s1 then None
          else Some (tbl1\<lparr>node_head := [], count := 0\<rparr>, s1))"

subsection \<open>The service hooks\<close>

text \<open>
  \<open>ip_vs_ch_init_svc\<close>: only the allocation of the table itself is tested; the value
  returned by \<open>ip_vs_ch_assign\<close> is dropped and the function returns 0.
\<close>

definition ip_vs_ch_init_svc :: "ip_vs_service \<Rightarrow> kmem \<Rightarrow> int \<times> ip_vs_service \<times> kmem" where
  "ip_vs_ch_init_svc svc s =
     (case kmalloc s of (ok, s1) \<Rightarrow>
        if \<not> ok then (- ENOMEM, svc, s1)
        else
          (case ip_vs_ch_assign \<lparr>count = 0, conhash = conhash_init, node_head = []\<rparr> svc s1 of
             (r, tbl, s2) \<Rightarrow> (0, svc\<lparr>sched_data := Some tbl\<rparr>, s2)))"

text \<open>
  The other hooks and the scheduler read \<open>svc->sched_data\<close> without a test; with no
  table there the C code dereferences \<open>NULL\<close>. That, and a flush that reads released
  memory which did not keep its contents, is the result \<open>None\<close> of the hooks.

  \<open>ip_vs_ch_done_svc\<close> flushes, then releases the ring (\<open>conhash_fini\<close>) and the table
  (\<open>kfree\<close>). It does not store to \<open>svc->sched_data\<close>, which keeps pointing at the
  released table; the table it is shown with here is the one the flush left. What a
  later use of that pointer does is not followed further.
\<close>

definition ip_vs_ch_done_svc ::
  "ip_vs_service \<Rightarrow> kmem \<Rightarrow> (int \<times> ip_vs_service \<times> kmem) option" where
  "ip_vs_ch_done_svc svc s =
     (case sched_data svc of
        None \<Rightarrow> None
      | Some tbl \<Rightarrow>
          (case ip_vs_ch_flush tbl s of
             None \<Rightarrow> None
           | Some (tbl1, s1) \<Rightarrow> Some (0, svc\<lparr>sched_data := Some tbl1\<rparr>, s1)))"

definition ip_vs_ch_update_svc ::
  "ip_vs_service \<Rightarrow> kmem \<Rightarrow> (int \<times> ip_vs_service \<times> kmem) option" where
  "ip_vs_ch_update_svc svc s =
     (case sched_data svc of
        None \<Rightarrow> None
      | Some tbl \<Rightarrow>
          (case ip_vs_ch_flush tbl s of
             None \<Rightarrow> None
           | Some (tbl1, s1) \<Rightarrow>
               (case ip_vs_ch_assign tbl1 svc s1 of
                  (r, tbl2, s2) \<Rightarrow> Some (0, svc\<lparr>sched_data := Some tbl2\<rparr>, s2))))"

subsection \<open>\<open>ip_vs_ch_schedule\<close>\<close>

definition is_overloaded :: "ip_vs_dest \<Rightarrow> u32" where
  "is_overloaded d = flags d AND IP_VS_DEST_F_OVERLOAD"

text \<open>The test under which the loop skips a candidate (\<open>continue\<close>).\<close>

definition ch_skip :: "kmem \<Rightarrow> dest_ptr option \<Rightarrow> bool" where
  "ch_skip s c =
     (case c of
        None \<Rightarrow> True
      | Some d \<Rightarrow>
          flags (dests s d) AND IP_VS_DEST_F_AVAILABLE = 0
          \<or> weight (dests s d) \<le>s 0
          \<or> is_overloaded (dests s d) \<noteq> 0)"

text \<open>
  \<open>for (i = 0; i < tbl->count; i++)\<close>: \<open>i\<close> is compared with the unsigned \<open>count\<close> as
  an unsigned value, and is cut to 16 bits where it is passed as \<open>sport\<close>.
\<close>

function sched_loop ::
  "conhash_lookup \<Rightarrow> u16 \<Rightarrow> ip_vs_ch_bucket \<Rightarrow> kmem \<Rightarrow> nf_inet_addr \<Rightarrow> u32 \<Rightarrow> dest_ptr option"
  where
  "sched_loop lk a tbl s sa i =
     (if i < count tbl then
        (let d = ip_vs_ch_get lk a tbl sa (ucast i) in
         if ch_skip s d then sched_loop lk a tbl s sa (i + 1) else d)
      else None)"
  by pat_completeness auto
termination
  by (relation "measure (\<lambda>(lk, a, tbl, s, sa, i). unat (count tbl) - unat i)")
     (auto simp: word_less_nat_alt, unat_arith)

declare sched_loop.simps [simp del]

text \<open>
  \<open>ip_vs_ch_schedule\<close> returns the destination found, or \<open>NULL\<close>. It writes nothing;
  the memory is handed back as it was received.
\<close>

definition ip_vs_ch_schedule ::
  "conhash_lookup \<Rightarrow> ip_vs_service \<Rightarrow> kmem \<Rightarrow> sk_buff \<Rightarrow> (dest_ptr option \<times> kmem) option"
  where
  "ip_vs_ch_schedule lk svc s skb =
     (case sched_data svc of
        None \<Rightarrow> None
      | Some tbl \<Rightarrow> Some (sched_loop lk (af svc) tbl s (saddr skb) 0, s))"

text \<open>The destination that round \<open>i\<close> of the loop looks at.\<close>

definition ch_attempt ::
  "conhash_lookup \<Rightarrow> u16 \<Rightarrow> ip_vs_ch_bucket \<Rightarrow> nf_inet_addr \<Rightarrow> nat \<Rightarrow> dest_ptr option" where
  "ch_attempt lk a tbl sa i = ip_vs_ch_get lk a tbl sa (ucast (word_of_nat i :: u32))"

subsection \<open>Notions used to state the properties\<close>

text \<open>
  The node that \<open>ip_vs_ch_assign\<close> builds for the destination at \<open>d\<close>: the entry holds
  the pointer, \<open>conhash_set_node\<close> gives it the identity string and \<open>weight * REPLICA\<close>
  replicas.
\<close>

definition ch_node :: "kmem \<Rightarrow> dest_ptr \<Rightarrow> node_s" where
  "ch_node s d =
     conhash_set_node \<lparr>iden = [], replicas = 0, dest = Some d\<rparr>
       (ch_node_iden (dests s d)) (weight (dests s d) * REPLICA)"

text \<open>The destinations of a list that pass the test \<open>weight > 0\<close> of the loop.\<close>

definition ch_live :: "kmem \<Rightarrow> dest_ptr list \<Rightarrow> dest_ptr list" where
  "ch_live s ds = filter (\<lambda>d. 0 <s weight (dests s d)) ds"


text \<open>The number of entries of a node list that point to the destination at \<open>p\<close>.\<close>

definition ch_refs :: "node_s list \<Rightarrow> dest_ptr \<Rightarrow> nat" where
  "ch_refs nls p = count_list (map dest nls) (Some p)"

text \<open>
  Two memories hold the same destinations up to their reference counts.
\<close>

definition refcnt_only :: "kmem \<Rightarrow> kmem \<Rightarrow> bool" where
  "refcnt_only s s' \<longleftrightarrow>
     (\<forall>p. addr (dests s' p) = addr (dests s p) \<and> port (dests s' p) = port (dests s p)
        \<and> flags (dests s' p) = flags (dests s p) \<and> weight (dests s' p) = weight (dests s p))"

subsection \<open>A configuration for the examples\<close>

text \<open>
  An instance of the lookup parameter: it picks the node of the ring whose position is
  the code of the key's last character, modulo the number of nodes, and finds nothing
  on an empty ring.
\<close>

definition ex_lookup :: conhash_lookup where
  "ex_lookup ring key =
     (if ring = [] then None else Some (ring ! (of_char (last key) mod length ring)))"

definition ex_addr :: "u32 \<Rightarrow> nf_inet_addr" where
  "ex_addr w = \<lparr>all0 = w, all1 = 0, all2 = 0, all3 = 0\<rparr>"

text \<open>
  Destinations 10.0.0.1:80 with weight 1 and 10.0.0.2:80 with weight 3, both available,
  and a third one that differs from the second in its port only (8080).
\<close>

definition ex_dest1 :: ip_vs_dest where
  "ex_dest1 = \<lparr>addr = ex_addr 0x0100000a, port = 0x5000, flags = 1, weight = 1, refcnt = 1\<rparr>"

definition ex_dest2 :: ip_vs_dest where
  "ex_dest2 = \<lparr>addr = ex_addr 0x0200000a, port = 0x5000, flags = 1, weight = 3, refcnt = 1\<rparr>"

definition ex_dest3 :: ip_vs_dest where
  "ex_dest3 = \<lparr>addr = ex_addr 0x0200000a, port = 0x901f, flags = 1, weight = 3, refcnt = 1\<rparr>"

definition ex_dests :: "dest_ptr \<Rightarrow> ip_vs_dest" where
  "ex_dests p = (if p = 1 then ex_dest1 else if p = 2 then ex_dest2 else ex_dest3)"

definition ex_mem :: kmem where
  "ex_mem = \<lparr>dests = ex_dests, allocs = [], kfree_keeps = True\<rparr>"

definition ex_svc :: ip_vs_service where
  "ex_svc = \<lparr>af = 2, destinations = [1, 2], sched_data = None\<rparr>"

text \<open>The table that \<open>ip_vs_ch_init_svc\<close> builds for \<open>ex_svc\<close>, and the service bound to it.\<close>

definition ex_node1 :: node_s where
  "ex_node1 = \<lparr>iden = ''167772161'', replicas = 160, dest = Some 1\<rparr>"

definition ex_node2 :: node_s where
  "ex_node2 = \<lparr>iden = ''167772162'', replicas = 480, dest = Some 2\<rparr>"

definition ex_tbl :: ip_vs_ch_bucket where
  "ex_tbl = \<lparr>count = 2, conhash = [ex_node1, ex_node2], node_head = [ex_node1, ex_node2]\<rparr>"

definition ex_svc_bound :: ip_vs_service where
  "ex_svc_bound = \<lparr>af = 2, destinations = [1, 2], sched_data = Some ex_tbl\<rparr>"

text \<open>The same memory with the first destination marked overloaded.\<close>

definition ex_dests_ovl :: "dest_ptr \<Rightarrow> ip_vs_dest" where
  "ex_dests_ovl p = (if p = 1 then ex_dest1\<lparr>flags := 3\<rparr> else ex_dests p)"

definition ex_mem_ovl :: kmem where
  "ex_mem_ovl = \<lparr>dests = ex_dests_ovl, allocs = [], kfree_keeps = True\<rparr>"

text \<open>A packet from 192.168.1.5.\<close>

definition ex_skb :: sk_buff where
  "ex_skb = \<lparr>saddr = ex_addr 0x0501a8c0\<rparr>"

text \<open>
  Two packets whose source addresses share the first word and differ in the second,
  as two IPv6 addresses with the same leading 32 bits do.
\<close>

definition ex_skb6a :: sk_buff where
  "ex_skb6a = \<lparr>saddr = \<lparr>all0 = 0xb80d0120, all1 = 1, all2 = 0, all3 = 0\<rparr>\<rparr>"

definition ex_skb6b :: sk_buff where
  "ex_skb6b = \<lparr>saddr = \<lparr>all0 = 0xb80d0120, all1 = 2, all2 = 0, all3 = 0\<rparr>\<rparr>"

text \<open>
  Memories in which allocations fail: the second \<open>kmalloc\<close> (the first node entry of
  an init), and the first one (the first node entry of an update).
\<close>

definition ex_mem_fail :: kmem where
  "ex_mem_fail = \<lparr>dests = ex_dests, allocs = [True, False], kfree_keeps = True\<rparr>"

definition ex_mem_fail1 :: kmem where
  "ex_mem_fail1 = \<lparr>dests = ex_dests, allocs = [False], kfree_keeps = True\<rparr>"

text \<open>The memory with every weight set to 0, and with other reference counts.\<close>

definition ex_dests_down :: "dest_ptr \<Rightarrow> ip_vs_dest" where
  "ex_dests_down p = (ex_dests p)\<lparr>weight := 0\<rparr>"

definition ex_mem_down :: kmem where
  "ex_mem_down = \<lparr>dests = ex_dests_down, allocs = [], kfree_keeps = True\<rparr>"

definition ex_dests_ref :: "dest_ptr \<Rightarrow> ip_vs_dest" where
  "ex_dests_ref p = (ex_dests p)\<lparr>refcnt := 7\<rparr>"

definition ex_mem_ref :: kmem where
  "ex_mem_ref = \<lparr>dests = ex_dests_ref, allocs = [True], kfree_keeps = True\<rparr>"

text \<open>
  The empty table, and the example service bound to it: what \<open>ip_vs_ch_init_svc\<close>
  leaves when the allocation of the first node entry fails, or when no destination
  has positive weight yet.
\<close>

definition ex_tbl_empty :: ip_vs_ch_bucket where
  "ex_tbl_empty = \<lparr>count = 0, conhash = [], node_head = []\<rparr>"

definition ex_svc_empty :: ip_vs_service where
  "ex_svc_empty = \<lparr>af = 2, destinations = [1, 2], sched_data = Some ex_tbl_empty\<rparr>"

text \<open>
  The example memories under an allocator that takes released objects over, and the
  memory after \<open>ip_vs_ch_init_svc\<close> under such an allocator.
\<close>

definition ex_mem_reuse :: kmem where
  "ex_mem_reuse = \<lparr>dests = ex_dests, allocs = [], kfree_keeps = False\<rparr>"

definition ex_mem_down_reuse :: kmem where
  "ex_mem_down_reuse = \<lparr>dests = ex_dests_down, allocs = [], kfree_keeps = False\<rparr>"

text \<open>The second destination with its weight set to 0, under such an allocator.\<close>

definition ex_dests_d2 :: "dest_ptr \<Rightarrow> ip_vs_dest" where
  "ex_dests_d2 p = (if p = 2 then ex_dest2\<lparr>weight := 0\<rparr> else ex_dests p)"

definition ex_mem_d2_reuse :: kmem where
  "ex_mem_d2_reuse = \<lparr>dests = ex_dests_d2, allocs = [], kfree_keeps = False\<rparr>"

definition ex_mem_init_reuse :: kmem where
  "ex_mem_init_reuse = snd (snd (ip_vs_ch_init_svc ex_svc ex_mem_reuse))"




section \<open>Properties\<close>

subsection \<open>The loop of \<open>ip_vs_ch_assign\<close>\<close>

lemma refcnt_only_refl: "refcnt_only s s"
  by (simp add: refcnt_only_def)

lemma refcnt_only_trans: "refcnt_only s s1 \<Longrightarrow> refcnt_only s1 s2 \<Longrightarrow> refcnt_only s s2"
  by (simp add: refcnt_only_def)

lemma refcnt_only_kmalloc: "refcnt_only s (snd (kmalloc s))"
  by (simp add: refcnt_only_def kmalloc_def split: list.splits)

lemma refcnt_only_inc: "refcnt_only s (atomic_inc_refcnt d s)"
  by (simp add: refcnt_only_def atomic_inc_refcnt_def)

lemma refcnt_only_dec: "refcnt_only s (atomic_dec_refcnt d s)"
  by (simp add: refcnt_only_def atomic_dec_refcnt_def)

lemma ch_node_frame: "refcnt_only s s' \<Longrightarrow> ch_node s' d = ch_node s d"
  by (simp add: refcnt_only_def ch_node_def ch_node_iden_def)

lemma ch_live_frame: "refcnt_only s s' \<Longrightarrow> ch_live s' ds = ch_live s ds"
  by (simp add: refcnt_only_def ch_live_def)

lemma ch_live_Nil: "ch_live s [] = []"
  by (simp add: ch_live_def)

lemma ch_live_Cons:
  "ch_live s (d # ds) = (if 0 <s weight (dests s d) then d # ch_live s ds else ch_live s ds)"
  by (simp add: ch_live_def)

lemma dests_kmalloc: "dests (snd (kmalloc s)) = dests s"
  by (simp add: kmalloc_def split: list.splits)

lemma assign_loop_skip:
  "\<not> 0 <s weight (dests s d) \<Longrightarrow> assign_loop (d # ds) tbl s = assign_loop ds tbl s"
  by simp

lemma assign_loop_fail:
  "0 <s weight (dests s d) \<Longrightarrow> \<not> fst (kmalloc s) \<Longrightarrow>
   assign_loop (d # ds) tbl s = (- ENOMEM, tbl, snd (kmalloc s))"
  by (simp add: Let_def case_prod_beta)

lemma assign_loop_add:
  "0 <s weight (dests s d) \<Longrightarrow> fst (kmalloc s) \<Longrightarrow>
   assign_loop (d # ds) tbl s =
     assign_loop ds
       (tbl\<lparr>node_head := node_head tbl @ [ch_node s d],
            conhash := conhash tbl @ [ch_node s d],
            count := count tbl + 1\<rparr>)
       (atomic_inc_refcnt d (snd (kmalloc s)))"
  by (simp add: Let_def case_prod_beta ch_node_def ch_node_iden_def conhash_add_node_def
      atomic_inc_refcnt_def dests_kmalloc)

lemma assign_loop_nil: "assign_loop [] tbl s = (0, tbl, s)"
  by simp

declare assign_loop.simps [simp del]


text \<open>Every node that the loop puts on the ring belongs to a listed destination of positive weight.\<close>

lemma assign_loop_conhash_set:
  "assign_loop ds tbl s = (r, tbl', s') \<Longrightarrow>
   set (conhash tbl') \<subseteq> set (conhash tbl) \<union> ch_node s ` set (ch_live s ds)"
proof (induction ds arbitrary: tbl s)
  case Nil
  then show ?case by (auto simp: assign_loop_nil)
next
  case (Cons d ds)
  show ?case
  proof (cases "0 <s weight (dests s d)")
    case False
    from Cons.prems have "assign_loop ds tbl s = (r, tbl', s')"
      unfolding assign_loop_skip [OF False] .
    from Cons.IH [OF this] False show ?thesis by (auto simp: ch_live_Cons)
  next
    case True
    show ?thesis
    proof (cases "fst (kmalloc s)")
      case False
      with True Cons.prems show ?thesis
        by (auto simp: assign_loop_fail)
    next
      case ok: True
      let ?s2 = "atomic_inc_refcnt d (snd (kmalloc s))"
      have fr: "refcnt_only s ?s2"
        by (rule refcnt_only_trans [OF refcnt_only_kmalloc refcnt_only_inc])
      from Cons.prems have "assign_loop ds
          (tbl\<lparr>node_head := node_head tbl @ [ch_node s d],
               conhash := conhash tbl @ [ch_node s d], count := count tbl + 1\<rparr>)
          ?s2 = (r, tbl', s')"
        unfolding assign_loop_add [OF True ok] .
      from Cons.IH [OF this] have "set (conhash tbl') \<subseteq>
          set (conhash tbl @ [ch_node s d]) \<union> ch_node ?s2 ` set (ch_live ?s2 ds)"
        by simp
      with True show ?thesis
        by (auto simp: ch_live_frame [OF fr] ch_node_frame [OF fr] ch_live_Cons)
    qed
  qed
qed

text \<open>Each entry the loop appends takes one reference to its destination.\<close>

lemma ch_refs_append: "ch_refs (xs @ ys) p = ch_refs xs p + ch_refs ys p"
  by (simp add: ch_refs_def)

lemma ch_refs_node: "ch_refs [ch_node s d] p = (if d = p then 1 else 0)"
  by (simp add: ch_refs_def ch_node_def conhash_set_node_def)

lemma refcnt_inc:
  "refcnt (dests (atomic_inc_refcnt d s) p) = refcnt (dests s p) + (if d = p then 1 else 0)"
  by (simp add: atomic_inc_refcnt_def)

lemma refcnt_dec:
  "refcnt (dests (atomic_dec_refcnt d s) p) = refcnt (dests s p) - (if d = p then 1 else 0)"
  by (simp add: atomic_dec_refcnt_def)

lemma assign_loop_refcnt:
  "assign_loop ds tbl s = (r, tbl', s') \<Longrightarrow>
   refcnt (dests s' p) + word_of_nat (ch_refs (node_head tbl) p)
     = refcnt (dests s p) + word_of_nat (ch_refs (node_head tbl') p)"
proof (induction ds arbitrary: tbl s)
  case Nil
  then show ?case by (auto simp: assign_loop_nil)
next
  case (Cons d ds)
  show ?case
  proof (cases "0 <s weight (dests s d)")
    case False
    from Cons.prems have "assign_loop ds tbl s = (r, tbl', s')"
      unfolding assign_loop_skip [OF False] .
    then show ?thesis by (rule Cons.IH)
  next
    case True
    show ?thesis
    proof (cases "fst (kmalloc s)")
      case False
      with True Cons.prems show ?thesis
        by (auto simp: assign_loop_fail dests_kmalloc)
    next
      case ok: True
      from Cons.prems have "assign_loop ds
          (tbl\<lparr>node_head := node_head tbl @ [ch_node s d],
               conhash := conhash tbl @ [ch_node s d], count := count tbl + 1\<rparr>)
          (atomic_inc_refcnt d (snd (kmalloc s))) = (r, tbl', s')"
        unfolding assign_loop_add [OF True ok] .
      from Cons.IH [OF this] show ?thesis
        by (cases "d = p") (simp_all add: ch_refs_append ch_refs_node refcnt_inc dests_kmalloc)
    qed
  qed
qed




text \<open>
  Whatever the allocations do, the loop appends the nodes of an initial part of the
  destinations of positive weight, to the entry list and to the ring alike, and counts
  them; it returns 0 exactly when that part is the whole.
\<close>

lemma assign_loop_prefix:
  "assign_loop ds tbl s = (r, tbl', s') \<Longrightarrow>
   \<exists>k \<le> length (ch_live s ds).
     tbl' = tbl\<lparr>node_head := node_head tbl @ map (ch_node s) (take k (ch_live s ds)),
                conhash := conhash tbl @ map (ch_node s) (take k (ch_live s ds)),
                count := count tbl + word_of_nat k\<rparr>
     \<and> (r = 0 \<longrightarrow> k = length (ch_live s ds))"
proof (induction ds arbitrary: tbl s)
  case Nil
  then show ?case by (auto simp: assign_loop_nil ch_live_Nil)
next
  case (Cons d ds)
  show ?case
  proof (cases "0 <s weight (dests s d)")
    case False
    from Cons.prems have "assign_loop ds tbl s = (r, tbl', s')"
      unfolding assign_loop_skip [OF False] .
    from Cons.IH [OF this] False show ?thesis by (simp add: ch_live_Cons)
  next
    case True
    show ?thesis
    proof (cases "fst (kmalloc s)")
      case False
      with True Cons.prems have "tbl' = tbl" and "r = - ENOMEM"
        by (simp_all add: assign_loop_fail)
      then show ?thesis
        by (intro exI [of _ 0]) (simp add: ENOMEM_def)
    next
      case ok: True
      let ?s2 = "atomic_inc_refcnt d (snd (kmalloc s))"
      let ?live = "ch_live s ds"
      have fr: "refcnt_only s ?s2"
        by (rule refcnt_only_trans [OF refcnt_only_kmalloc refcnt_only_inc])
      from Cons.prems have "assign_loop ds
          (tbl\<lparr>node_head := node_head tbl @ [ch_node s d],
               conhash := conhash tbl @ [ch_node s d], count := count tbl + 1\<rparr>)
          ?s2 = (r, tbl', s')"
        unfolding assign_loop_add [OF True ok] .
      from Cons.IH [OF this]
      obtain k where k: "k \<le> length ?live"
        and t: "tbl' = tbl\<lparr>node_head := node_head tbl @ ch_node s d # map (ch_node s) (take k ?live),
                conhash := conhash tbl @ ch_node s d # map (ch_node s) (take k ?live),
                count := count tbl + 1 + word_of_nat k\<rparr>"
        and z: "r = 0 \<longrightarrow> k = length ?live"
        by (auto simp: ch_live_frame [OF fr] ch_node_frame [OF fr])
      from k t z True show ?thesis
        by (intro exI [of _ "Suc k"]) (simp add: ch_live_Cons add.assoc add.commute)
    qed
  qed
qed

text \<open>The loop does not change what the allocator does with released memory.\<close>

lemma kfree_keeps_kmalloc: "kfree_keeps (snd (kmalloc s)) = kfree_keeps s"
  by (simp add: kmalloc_def split: list.splits)

lemma kfree_keeps_inc: "kfree_keeps (atomic_inc_refcnt d s) = kfree_keeps s"
  by (simp add: atomic_inc_refcnt_def)

lemma kfree_keeps_dec: "kfree_keeps (atomic_dec_refcnt d s) = kfree_keeps s"
  by (simp add: atomic_dec_refcnt_def)

lemma assign_loop_keeps:
  "assign_loop ds tbl s = (r, tbl', s') \<Longrightarrow> kfree_keeps s' = kfree_keeps s"
proof (induction ds arbitrary: tbl s)
  case Nil
  then show ?case by (auto simp: assign_loop_nil)
next
  case (Cons d ds)
  show ?case
  proof (cases "0 <s weight (dests s d)")
    case False
    from Cons.prems have "assign_loop ds tbl s = (r, tbl', s')"
      unfolding assign_loop_skip [OF False] .
    then show ?thesis by (rule Cons.IH)
  next
    case True
    show ?thesis
    proof (cases "fst (kmalloc s)")
      case False
      with True Cons.prems show ?thesis
        by (auto simp: assign_loop_fail kfree_keeps_kmalloc)
    next
      case ok: True
      from Cons.prems have "assign_loop ds
          (tbl\<lparr>node_head := node_head tbl @ [ch_node s d],
               conhash := conhash tbl @ [ch_node s d], count := count tbl + 1\<rparr>)
          (atomic_inc_refcnt d (snd (kmalloc s))) = (r, tbl', s')"
        unfolding assign_loop_add [OF True ok] .
      from Cons.IH [OF this] show ?thesis
        by (simp add: kfree_keeps_inc kfree_keeps_kmalloc)
    qed
  qed
qed

subsection \<open>The loop of \<open>ip_vs_ch_flush\<close>\<close>

lemma flush_loop_nil: "flush_loop [] tbl s = Some (tbl, s)"
  by simp

lemma flush_loop_step:
  "flush_loop (nl # nls) tbl s =
     (if kfree_keeps s then
        flush_loop nls
          (tbl\<lparr>conhash := filter (\<lambda>m. iden m \<noteq> iden nl) (conhash tbl), count := count tbl - 1\<rparr>)
          (case dest nl of Some d \<Rightarrow> atomic_dec_refcnt d s | None \<Rightarrow> s)
      else None)"
  by (simp add: conhash_del_node_def Let_def kfree_keeps_dec split: option.splits)

declare flush_loop.simps [simp del]

text \<open>
  The loop runs to its end exactly when there is no entry, or released memory keeps
  its contents; otherwise it reads released memory that did not.
\<close>

lemma flush_loop_None_iff:
  "flush_loop nls tbl s = None \<longleftrightarrow> nls \<noteq> [] \<and> \<not> kfree_keeps s"
proof (induction nls arbitrary: tbl s)
  case Nil
  show ?case by (simp add: flush_loop_nil)
next
  case (Cons nl nls)
  show ?case
  proof (cases "kfree_keeps s")
    case False
    then show ?thesis by (simp add: flush_loop_step)
  next
    case True
    then have "kfree_keeps (case dest nl of Some d \<Rightarrow> atomic_dec_refcnt d s | None \<Rightarrow> s)"
      by (simp add: kfree_keeps_dec split: option.splits)
    with True show ?thesis by (simp add: flush_loop_step Cons.IH)
  qed
qed

lemma ch_refs_Nil: "ch_refs [] p = 0"
  by (simp add: ch_refs_def)

lemma ch_refs_Cons:
  "ch_refs (nl # nls) p = (if dest nl = Some p then 1 else 0) + ch_refs nls p"
  by (simp add: ch_refs_def)

lemma flush_loop_effect:
  "flush_loop nls tbl s = Some (tbl', s') \<Longrightarrow>
     refcnt_only s s' \<and> allocs s' = allocs s \<and> kfree_keeps s' = kfree_keeps s
     \<and> node_head tbl' = node_head tbl
     \<and> conhash tbl' = filter (\<lambda>m. iden m \<notin> iden ` set nls) (conhash tbl)
     \<and> refcnt (dests s' p) = refcnt (dests s p) - word_of_nat (ch_refs nls p)"
proof (induction nls arbitrary: tbl s)
  case Nil
  then show ?case by (auto simp: flush_loop_nil refcnt_only_refl ch_refs_Nil)
next
  case (Cons nl nls)
  let ?s1 = "case dest nl of Some d \<Rightarrow> atomic_dec_refcnt d s | None \<Rightarrow> s"
  let ?tbl1 = "tbl\<lparr>conhash := filter (\<lambda>m. iden m \<noteq> iden nl) (conhash tbl), count := count tbl - 1\<rparr>"
  have fr: "refcnt_only s ?s1"
    by (simp add: refcnt_only_refl refcnt_only_dec split: option.splits)
  have al: "allocs ?s1 = allocs s"
    by (simp add: atomic_dec_refcnt_def split: option.splits)
  have kk: "kfree_keeps ?s1 = kfree_keeps s"
    by (simp add: kfree_keeps_dec split: option.splits)
  have rc: "refcnt (dests ?s1 p) = refcnt (dests s p) - (if dest nl = Some p then 1 else 0)"
    by (simp add: refcnt_dec split: option.splits)
  from Cons.prems have "flush_loop nls ?tbl1 ?s1 = Some (tbl', s')"
    by (simp add: flush_loop_step split: if_splits)
  from Cons.IH [OF this] have ih: "refcnt_only ?s1 s'" "allocs s' = allocs ?s1"
    "kfree_keeps s' = kfree_keeps ?s1"
    "node_head tbl' = node_head ?tbl1"
    "conhash tbl' = filter (\<lambda>m. iden m \<notin> iden ` set nls) (conhash ?tbl1)"
    "refcnt (dests s' p) = refcnt (dests ?s1 p) - word_of_nat (ch_refs nls p)"
    by simp_all
  from ih(1) fr have "refcnt_only s s'" by (metis refcnt_only_trans)
  moreover from ih(2) al have "allocs s' = allocs s" by simp
  moreover from ih(3) kk have "kfree_keeps s' = kfree_keeps s" by simp
  moreover from ih(4) have "node_head tbl' = node_head tbl" by simp
  moreover from ih(5) have "conhash tbl' = filter (\<lambda>m. iden m \<notin> iden ` set (nl # nls)) (conhash tbl)"
    by (auto intro: filter_cong)
  moreover from ih(6) rc have "refcnt (dests s' p) = refcnt (dests s p) - word_of_nat (ch_refs (nl # nls) p)"
    by (simp add: ch_refs_Cons)
  ultimately show ?case by simp
qed

text \<open>
  \<open>ip_vs_ch_flush\<close> runs to its end exactly when the table has no entry, or released
  memory keeps its contents.
\<close>

lemma flush_None_iff:
  "ip_vs_ch_flush tbl s = None \<longleftrightarrow> node_head tbl \<noteq> [] \<and> \<not> kfree_keeps s"
proof (cases "flush_loop (node_head tbl) tbl s")
  case None
  then show ?thesis
    using flush_loop_None_iff [of "node_head tbl" tbl s] by (simp add: ip_vs_ch_flush_def)
next
  case (Some x)
  obtain tbl1 s1 where x: "x = (tbl1, s1)" by (cases x)
  from Some x flush_loop_effect [of "node_head tbl" tbl s tbl1 s1]
  have "kfree_keeps s1 = kfree_keeps s" by simp
  moreover from Some flush_loop_None_iff [of "node_head tbl" tbl s]
  have "node_head tbl = [] \<or> kfree_keeps s" by auto
  ultimately show ?thesis using Some x by (auto simp: ip_vs_ch_flush_def)
qed

lemma flush_effect:
  assumes "ip_vs_ch_flush tbl s = Some (tbl', s')"
  shows "refcnt_only s s'" and "allocs s' = allocs s"
    and "node_head tbl' = []" and "count tbl' = 0"
    and "conhash tbl' = filter (\<lambda>m. iden m \<notin> iden ` set (node_head tbl)) (conhash tbl)"
    and "refcnt (dests s' p) = refcnt (dests s p) - word_of_nat (ch_refs (node_head tbl) p)"
    and "kfree_keeps s' = kfree_keeps s"
proof -
  obtain tbl1 where fl: "flush_loop (node_head tbl) tbl s = Some (tbl1, s')"
    and t: "tbl' = tbl1\<lparr>node_head := [], count := 0\<rparr>"
    using assms by (auto simp: ip_vs_ch_flush_def split: option.splits if_splits)
  from flush_loop_effect [OF fl, of p] t
  show "refcnt_only s s'" and "allocs s' = allocs s"
    and "node_head tbl' = []" and "count tbl' = 0"
    and "conhash tbl' = filter (\<lambda>m. iden m \<notin> iden ` set (node_head tbl)) (conhash tbl)"
    and "refcnt (dests s' p) = refcnt (dests s p) - word_of_nat (ch_refs (node_head tbl) p)"
    and "kfree_keeps s' = kfree_keeps s"
    by simp_all
qed

lemma flush_tracked:
  assumes "ip_vs_ch_flush tbl s = Some (tbl', s')" and "conhash tbl = node_head tbl"
  shows "tbl' = \<lparr>count = 0, conhash = [], node_head = []\<rparr>"
proof -
  from flush_effect(5) [OF assms(1)] assms(2) have "conhash tbl' = []"
    by (simp add: filter_empty_conv)
  with flush_effect(3,4) [OF assms(1)] show ?thesis by simp
qed

subsection \<open>The service hooks, unfolded\<close>

lemma init_fail:
  "\<not> fst (kmalloc s) \<Longrightarrow> ip_vs_ch_init_svc svc s = (- ENOMEM, svc, snd (kmalloc s))"
  by (simp add: ip_vs_ch_init_svc_def case_prod_beta)

lemma init_ok:
  "fst (kmalloc s) \<Longrightarrow>
   ip_vs_ch_init_svc svc s =
     (0, svc\<lparr>sched_data :=
              Some (fst (snd (assign_loop (destinations svc)
                                \<lparr>count = 0, conhash = [], node_head = []\<rparr> (snd (kmalloc s)))))\<rparr>,
      snd (snd (assign_loop (destinations svc)
                  \<lparr>count = 0, conhash = [], node_head = []\<rparr> (snd (kmalloc s)))))"
  by (simp add: ip_vs_ch_init_svc_def ip_vs_ch_assign_def conhash_init_def case_prod_beta)

lemma init_zero: "ip_vs_ch_init_svc svc s = (0, svc', s') \<Longrightarrow> fst (kmalloc s)"
  using init_fail [of s svc] by (auto simp: ENOMEM_def)

lemma update_eq:
  "sched_data svc = Some tbl0 \<Longrightarrow> ip_vs_ch_flush tbl0 s = Some (tf, sf) \<Longrightarrow>
   ip_vs_ch_update_svc svc s =
     Some (0, svc\<lparr>sched_data :=
              Some (fst (snd (assign_loop (destinations svc) (tf\<lparr>node_head := []\<rparr>) sf)))\<rparr>,
      snd (snd (assign_loop (destinations svc) (tf\<lparr>node_head := []\<rparr>) sf)))"
  by (simp add: ip_vs_ch_update_svc_def ip_vs_ch_assign_def case_prod_beta)

lemma update_None:
  "sched_data svc = Some tbl0 \<Longrightarrow> ip_vs_ch_flush tbl0 s = None \<Longrightarrow>
   ip_vs_ch_update_svc svc s = None"
  by (simp add: ip_vs_ch_update_svc_def)

lemma update_Some_flush:
  "sched_data svc = Some tbl0 \<Longrightarrow> ip_vs_ch_update_svc svc s = Some x \<Longrightarrow>
   \<exists>tf sf. ip_vs_ch_flush tbl0 s = Some (tf, sf)"
  by (cases "ip_vs_ch_flush tbl0 s") (auto simp: update_None)

lemma done_eq:
  "sched_data svc = Some tbl0 \<Longrightarrow> ip_vs_ch_flush tbl0 s = Some (tf, sf) \<Longrightarrow>
   ip_vs_ch_done_svc svc s = Some (0, svc\<lparr>sched_data := Some tf\<rparr>, sf)"
  by (simp add: ip_vs_ch_done_svc_def)

lemma done_None:
  "sched_data svc = Some tbl0 \<Longrightarrow> ip_vs_ch_flush tbl0 s = None \<Longrightarrow>
   ip_vs_ch_done_svc svc s = None"
  by (simp add: ip_vs_ch_done_svc_def)

lemma conhash_vnodes_ch_node:
  "conhash_vnodes (map (ch_node s) ds) = sum_list (map (\<lambda>d. unat (weight (dests s d) * REPLICA)) ds)"
  by (simp add: conhash_vnodes_def ch_node_def conhash_set_node_def comp_def)

subsection \<open>Byte order and decimal digits\<close>

lemma bit_ntohl:
  "bit (ntohl w) n \<longleftrightarrow>
     (if n < 8 then bit w (24 + n) else if n < 16 then bit w (8 + n)
      else if n < 24 then bit w (n - 8) else n < 32 \<and> bit w (n - 24))"
  by (auto simp: ntohl_def bit_simps dest: bit_imp_le_length)

lemma ntohl_ntohl: "ntohl (ntohl w) = w"
  by (rule bit_word_eqI) (auto simp: bit_ntohl)

lemma ntohl_inj: "ntohl v = ntohl w \<longleftrightarrow> v = w"
  by (metis ntohl_ntohl)

lemma digit_cases: "d < 10 \<Longrightarrow> d \<in> {0, 1, 2, 3, 4, 5, 6, 7, 8, 9::nat}"
  by auto

lemma of_char_digit: "d < 10 \<Longrightarrow> of_char (digit_char d) = 48 + d"
  by (drule digit_cases) (auto simp: digit_char_def)

lemma sprintf_u_digits:
  "foldl (\<lambda>a c. 10 * a + (of_char c - 48)) 0 (sprintf_u n) = n"
proof (induction n rule: sprintf_u.induct)
  case (1 n)
  show ?case
  proof (cases "n < 10")
    case True
    then show ?thesis by (subst sprintf_u.simps) (simp add: of_char_digit)
  next
    case False
    with 1 show ?thesis by (subst sprintf_u.simps) (simp add: of_char_digit)
  qed
qed

lemma sprintf_u_inj: "sprintf_u m = sprintf_u n \<longleftrightarrow> m = n"
  by (metis sprintf_u_digits)

subsection \<open>Evaluating the examples\<close>

lemmas ex_defs = ex_lookup_def ex_addr_def ex_dest1_def ex_dest2_def ex_dest3_def ex_dests_def
  ex_mem_def ex_svc_def ex_node1_def ex_node2_def ex_tbl_def ex_svc_bound_def ex_dests_ovl_def
  ex_mem_ovl_def ex_skb_def ex_skb6a_def ex_skb6b_def ex_mem_fail_def ex_mem_fail1_def
  ex_dests_down_def ex_mem_down_def ex_dests_ref_def ex_mem_ref_def ex_tbl_empty_def
  ex_svc_empty_def ex_mem_reuse_def ex_mem_down_reuse_def
  ex_dests_d2_def ex_mem_d2_reuse_def

lemmas ex_eval = ex_defs ip_vs_ch_init_svc_def ip_vs_ch_update_svc_def ip_vs_ch_assign_def
  ip_vs_ch_flush_def assign_loop.simps flush_loop.simps kmalloc_def
  atomic_inc_refcnt_def atomic_dec_refcnt_def conhash_init_def conhash_set_node_def
  conhash_add_node_def conhash_del_node_def ch_node_iden_def ip_def ntohl_def
  sprintf_u.simps digit_char_def REPLICA_def Let_def word_sless_alt ENOMEM_def





lemma ex_bound: "sched_data ex_svc_bound = Some ex_tbl" "destinations ex_svc_bound = [1, 2]"
  "destinations ex_svc = [1, 2]"
  by (simp_all add: ex_svc_bound_def ex_svc_def)


lemma ex_entries: "node_head ex_tbl \<noteq> []"
  by (simp add: ex_tbl_def)

lemma ex_keeps: "kfree_keeps ex_mem" "\<not> kfree_keeps ex_mem_reuse"
  "\<not> kfree_keeps ex_mem_down_reuse" "kfree_keeps ex_mem_fail1"
  by (simp_all add: ex_defs)









lemma ex_vnodes:
  "sum_list (map (\<lambda>d. unat (weight (dests ex_mem d) * REPLICA)) [1, 2]) = 640"
  by (simp add: ex_defs REPLICA_def)

lemma ex_attempt0:
  "ch_attempt ex_lookup (af ex_svc_bound) ex_tbl (saddr ex_skb) 0 = Some 1"
  by (simp add: ex_defs ch_attempt_def ip_vs_ch_get_def ch_key_def ip_def ntohl_def
      sprintf_u.simps digit_char_def flip: numeral_2_eq_2)

lemma ex_attempt1:
  "ch_attempt ex_lookup (af ex_svc_bound) ex_tbl (saddr ex_skb) 1 = Some 2"
  by (simp add: ex_defs ch_attempt_def ip_vs_ch_get_def ch_key_def ip_def ntohl_def
      sprintf_u.simps digit_char_def flip: numeral_2_eq_2)

lemma ex_skip2: "\<not> ch_skip ex_mem_ovl (Some 2)"
  by (simp add: ex_defs ch_skip_def is_overloaded_def IP_VS_DEST_F_AVAILABLE_def
      IP_VS_DEST_F_OVERLOAD_def word_sle_eq)

subsection \<open>The scheduling loop\<close>

lemma word_inc_unat: "(i :: u32) < c \<Longrightarrow> unat (i + 1) = Suc (unat i)"
  by unat_arith

lemma sched_loop_find:
  "sched_loop lk a tbl s sa i =
     (case find (\<lambda>j. \<not> ch_skip s (ch_attempt lk a tbl sa j)) [unat i ..< unat (count tbl)] of
        None \<Rightarrow> None
      | Some j \<Rightarrow> ch_attempt lk a tbl sa j)"
proof (induction lk a tbl s sa i rule: sched_loop.induct)
  case (1 lk a tbl s sa i)
  show ?case
  proof (cases "i < count tbl")
    case False
    then have "unat (count tbl) \<le> unat i" by (simp add: word_less_nat_alt)
    with False show ?thesis by (subst sched_loop.simps) simp
  next
    case True
    then have lt: "unat i < unat (count tbl)" by (simp add: word_less_nat_alt)
    have suc: "unat (i + 1) = Suc (unat i)" using True by (rule word_inc_unat)
    have att: "ip_vs_ch_get lk a tbl sa (ucast i) = ch_attempt lk a tbl sa (unat i)"
      by (simp add: ch_attempt_def)
    show ?thesis
    proof (cases "ch_skip s (ip_vs_ch_get lk a tbl sa (ucast i))")
      case skip: True
      from "1.IH" [OF True refl skip] skip True lt show ?thesis
        by (subst sched_loop.simps) (simp add: upt_conv_Cons suc att Let_def)
    next
      case noskip: False
      with True lt show ?thesis
        by (subst sched_loop.simps) (simp add: upt_conv_Cons att Let_def)
    qed
  qed
qed

lemma ch_skip_Some_iff:
  "\<not> ch_skip s c \<longleftrightarrow>
     (\<exists>d. c = Some d \<and> flags (dests s d) AND IP_VS_DEST_F_AVAILABLE \<noteq> 0
          \<and> is_overloaded (dests s d) = 0 \<and> 0 <s weight (dests s d))"
  by (cases c) (auto simp: ch_skip_def signed.not_le)

lemma unat_sport: "unat (ucast (word_of_nat i :: u32) :: u16) = i mod 65536"
proof -
  have "unat (ucast (word_of_nat i :: u32) :: u16) = (i mod 2 ^ 32) mod 2 ^ 16"
    by (simp add: unsigned_ucast_eq unat_of_nat take_bit_eq_mod)
  also have "\<dots> = i mod 2 ^ 16"
    by (rule mod_mod_cancel) simp
  finally show ?thesis by simp
qed

lemma ch_attempt_key:
  "ch_attempt lk a tbl sa i =
     (case lk (conhash tbl)
             (sprintf_u (unat (ntohl (ip sa))) @ '':'' @ sprintf_u (i mod 65536)) of
        None \<Rightarrow> None
      | Some node \<Rightarrow> dest node)"
  by (simp add: ch_attempt_def ip_vs_ch_get_def ch_key_def unat_sport)

lemma sched_loop_None:
  "sched_loop lk a tbl s sa 0 = None \<longleftrightarrow>
     (\<forall>i < unat (count tbl). ch_skip s (ch_attempt lk a tbl sa i))"
proof -
  let ?P = "\<lambda>j. \<not> ch_skip s (ch_attempt lk a tbl sa j)"
  show ?thesis
  proof (cases "find ?P [0 ..< unat (count tbl)]")
    case None
    then have "sched_loop lk a tbl s sa 0 = None" by (simp add: sched_loop_find)
    moreover from None have "\<forall>i < unat (count tbl). ch_skip s (ch_attempt lk a tbl sa i)"
      by (simp add: find_None_iff)
    ultimately show ?thesis by simp
  next
    case (Some j)
    then have "?P j" and "j < unat (count tbl)"
      by (auto simp: find_Some_iff)
    moreover from \<open>?P j\<close> have "ch_attempt lk a tbl sa j \<noteq> None"
      by (auto simp: ch_skip_def split: option.splits)
    ultimately show ?thesis using Some by (auto simp: sched_loop_find)
  qed
qed

lemma sched_loop_Some:
  assumes "sched_loop lk a tbl s sa 0 = Some d"
  shows "\<exists>i < unat (count tbl). ch_attempt lk a tbl sa i = Some d
           \<and> \<not> ch_skip s (Some d)
           \<and> (\<forall>j < i. ch_skip s (ch_attempt lk a tbl sa j))"
proof -
  let ?P = "\<lambda>j. \<not> ch_skip s (ch_attempt lk a tbl sa j)"
  from assms obtain j where f: "find ?P [0 ..< unat (count tbl)] = Some j"
    and d: "ch_attempt lk a tbl sa j = Some d"
    by (auto simp: sched_loop_find split: option.splits)
  from f have "j < unat (count tbl)" "?P j" "\<forall>k < j. \<not> ?P k"
    by (auto simp: find_Some_iff)
  with d show ?thesis by auto
qed


text \<open>
  Claim C1. For a service bound to a table, \<open>ip_vs_ch_schedule\<close> returns, and what it
  returns is settled by the rounds \<open>i = 0, 1, \<dots>\<close> below \<open>count\<close>: round \<open>i\<close> looks up the
  key made of the packet's source address and \<open>i\<close> (cut to 16 bits); a candidate that is
  missing, not available, overloaded or of weight \<open>\<le> 0\<close> is skipped. The result is the
  candidate of the first round that is not skipped, with every earlier round skipped.
  It is \<open>NULL\<close> exactly when every round below \<open>count\<close> is skipped. A destination that
  is returned is available, not overloaded and of positive weight.
\<close>

theorem ch_schedule_first_acceptable:
  assumes "sched_data svc = Some tbl"
  shows "\<exists>r. ip_vs_ch_schedule lk svc s skb = Some (r, s)
    \<and> (r = None \<longleftrightarrow>
         (\<forall>i < unat (count tbl). ch_skip s (ch_attempt lk (af svc) tbl (saddr skb) i)))
    \<and> (\<forall>d. r = Some d \<longrightarrow>
         (\<exists>i < unat (count tbl). ch_attempt lk (af svc) tbl (saddr skb) i = Some d
            \<and> (\<forall>j < i. ch_skip s (ch_attempt lk (af svc) tbl (saddr skb) j)))
         \<and> flags (dests s d) AND IP_VS_DEST_F_AVAILABLE \<noteq> 0
         \<and> is_overloaded (dests s d) = 0
         \<and> 0 <s weight (dests s d))
    \<and> (\<forall>i. ch_attempt lk (af svc) tbl (saddr skb) i =
         (case lk (conhash tbl)
                 (sprintf_u (unat (ntohl (ip (saddr skb)))) @ '':'' @ sprintf_u (i mod 65536)) of
            None \<Rightarrow> None
          | Some node \<Rightarrow> dest node))"
proof -
  let ?r = "sched_loop lk (af svc) tbl s (saddr skb) 0"
  have "ip_vs_ch_schedule lk svc s skb = Some (?r, s)"
    using assms by (simp add: ip_vs_ch_schedule_def)
  moreover have "?r = None \<longleftrightarrow>
      (\<forall>i < unat (count tbl). ch_skip s (ch_attempt lk (af svc) tbl (saddr skb) i))"
    by (rule sched_loop_None)
  moreover have "\<forall>d. ?r = Some d \<longrightarrow>
         (\<exists>i < unat (count tbl). ch_attempt lk (af svc) tbl (saddr skb) i = Some d
            \<and> (\<forall>j < i. ch_skip s (ch_attempt lk (af svc) tbl (saddr skb) j)))
         \<and> flags (dests s d) AND IP_VS_DEST_F_AVAILABLE \<noteq> 0
         \<and> is_overloaded (dests s d) = 0
         \<and> 0 <s weight (dests s d)"
  proof (intro allI impI)
    fix d assume "?r = Some d"
    from sched_loop_Some [OF this] show "(\<exists>i < unat (count tbl). ch_attempt lk (af svc) tbl (saddr skb) i = Some d
            \<and> (\<forall>j < i. ch_skip s (ch_attempt lk (af svc) tbl (saddr skb) j)))
         \<and> flags (dests s d) AND IP_VS_DEST_F_AVAILABLE \<noteq> 0
         \<and> is_overloaded (dests s d) = 0
         \<and> 0 <s weight (dests s d)"
      using ch_skip_Some_iff [of s "Some d"] by auto
  qed
  moreover have "\<forall>i. ch_attempt lk (af svc) tbl (saddr skb) i =
         (case lk (conhash tbl)
                 (sprintf_u (unat (ntohl (ip (saddr skb)))) @ '':'' @ sprintf_u (i mod 65536)) of
            None \<Rightarrow> None
          | Some node \<Rightarrow> dest node)"
    by (simp add: ch_attempt_key)
  ultimately show ?thesis by (intro exI [of _ ?r] conjI)
qed

text \<open>
  The theorem at the example table, with the first destination overloaded: round 0
  meets the overloaded destination, round 1 the second one, which is returned.
\<close>

theorem ch_schedule_first_acceptable_witness:
  "sched_data ex_svc_bound = Some ex_tbl
   \<and> ip_vs_ch_schedule ex_lookup ex_svc_bound ex_mem_ovl ex_skb = Some (Some 2, ex_mem_ovl)"
proof -
  have h: "sched_data ex_svc_bound = Some ex_tbl"
    by (simp add: ex_svc_bound_def)
  have cnt: "unat (count ex_tbl) = 2"
    by (simp add: ex_tbl_def)
  from ch_schedule_first_acceptable [OF h, of ex_lookup ex_mem_ovl ex_skb]
  obtain r where r: "ip_vs_ch_schedule ex_lookup ex_svc_bound ex_mem_ovl ex_skb = Some (r, ex_mem_ovl)"
    and none: "r = None \<longleftrightarrow> (\<forall>i < unat (count ex_tbl).
                 ch_skip ex_mem_ovl (ch_attempt ex_lookup (af ex_svc_bound) ex_tbl (saddr ex_skb) i))"
    and some: "\<forall>d. r = Some d \<longrightarrow>
         (\<exists>i < unat (count ex_tbl).
             ch_attempt ex_lookup (af ex_svc_bound) ex_tbl (saddr ex_skb) i = Some d
            \<and> (\<forall>j < i. ch_skip ex_mem_ovl (ch_attempt ex_lookup (af ex_svc_bound) ex_tbl (saddr ex_skb) j)))
         \<and> flags (dests ex_mem_ovl d) AND IP_VS_DEST_F_AVAILABLE \<noteq> 0
         \<and> is_overloaded (dests ex_mem_ovl d) = 0
         \<and> 0 <s weight (dests ex_mem_ovl d)"
    by blast
  have "r \<noteq> None"
  proof
    assume "r = None"
    with none cnt have "ch_skip ex_mem_ovl (ch_attempt ex_lookup (af ex_svc_bound) ex_tbl (saddr ex_skb) 1)"
      by simp
    with ex_attempt1 ex_skip2 show False by simp
  qed
  then obtain d where d: "r = Some d" by auto
  with some cnt obtain i where i: "i < 2"
    and a: "ch_attempt ex_lookup (af ex_svc_bound) ex_tbl (saddr ex_skb) i = Some d"
    and ok: "is_overloaded (dests ex_mem_ovl d) = 0"
    by auto
  from i have "i = 0 \<or> i = 1" by auto
  then have "d = 2"
  proof
    assume "i = 0"
    with a ex_attempt0 have "d = 1" by simp
    with ok show ?thesis
      by (simp add: ex_defs is_overloaded_def IP_VS_DEST_F_OVERLOAD_def)
  next
    assume "i = 1"
    with a ex_attempt1 show ?thesis by simp
  qed
  with r d h show ?thesis by simp
qed

subsection \<open>The counter of the table\<close>







subsection \<open>Allocation failures\<close>

text \<open>
  Claim C3 does not hold of the code. With the allocation of the first node entry
  failing, \<open>ip_vs_ch_assign\<close> returns \<open>-ENOMEM\<close>, but both \<open>ip_vs_ch_init_svc\<close> and
  \<open>ip_vs_ch_update_svc\<close> drop that value and return 0. The update is taken from the
  table with two entries, under an allocator that leaves released entries alone, and
  from the empty table, where the flush releases nothing.
\<close>

theorem ch_init_update_drop_enomem:
  "fst (ip_vs_ch_assign \<lparr>count = 0, conhash = conhash_init, node_head = []\<rparr> ex_svc
          (snd (kmalloc ex_mem_fail))) = - ENOMEM
   \<and> fst (ip_vs_ch_init_svc ex_svc ex_mem_fail) = 0
   \<and> ip_vs_ch_flush ex_tbl ex_mem_fail1 \<noteq> None
   \<and> fst (ip_vs_ch_assign (fst (the (ip_vs_ch_flush ex_tbl ex_mem_fail1))) ex_svc_bound
          (snd (the (ip_vs_ch_flush ex_tbl ex_mem_fail1)))) = - ENOMEM
   \<and> map_option fst (ip_vs_ch_update_svc ex_svc_bound ex_mem_fail1) = Some 0
   \<and> fst (ip_vs_ch_assign ex_tbl_empty ex_svc_empty ex_mem_fail1) = - ENOMEM
   \<and> map_option fst (ip_vs_ch_update_svc ex_svc_empty ex_mem_fail1) = Some 0"
  by (simp add: ex_eval)

subsection \<open>Identity strings\<close>

text \<open>
  Claim C4, as the specification states it, fails: two destinations that differ in
  their port only get the same identity string.
\<close>

theorem ch_node_iden_counterexample:
  "addr ex_dest2 = addr ex_dest3 \<and> port ex_dest2 \<noteq> port ex_dest3
   \<and> ch_node_iden ex_dest2 = ch_node_iden ex_dest3"
  by (simp add: ex_dest2_def ex_dest3_def ch_node_iden_def)


text \<open>
  Claim C4, amended. The identity string of a destination's node is a function of the
  32-bit \<open>ip\<close> member of its address alone, and an injective one: two destinations
  get the same identity string exactly when they agree on that member. (The replica
  index is added by the ring library.)
\<close>

theorem ch_node_iden_eq_iff:
  "ch_node_iden d1 = ch_node_iden d2 \<longleftrightarrow> ip (addr d1) = ip (addr d2)"
  by (simp add: ch_node_iden_def sprintf_u_inj ntohl_inj word_unat_eq_iff [symmetric])

subsection \<open>The ring and the entry list\<close>

lemma assign_loop_tracked:
  "assign_loop ds tbl s = (r, tbl', s') \<Longrightarrow> conhash tbl = node_head tbl \<Longrightarrow>
   conhash tbl' = node_head tbl'"
  using assign_loop_prefix [of ds tbl s r tbl' s'] by auto

text \<open>
  The hypothesis on the table used below, that the ring holds exactly the nodes of the
  entry list, is true of every table the module produces: \<open>ip_vs_ch_init_svc\<close>
  establishes it and an \<open>ip_vs_ch_update_svc\<close> that runs to its end keeps it, whether
  or not an allocation fails.
\<close>

lemma init_tracked:
  assumes "ip_vs_ch_init_svc svc s = (0, svc', s')"
  shows "\<exists>tbl. sched_data svc' = Some tbl \<and> conhash tbl = node_head tbl"
proof -
  have ok: "fst (kmalloc s)" by (rule init_zero [OF assms])
  let ?a = "assign_loop (destinations svc) \<lparr>count = 0, conhash = [], node_head = []\<rparr> (snd (kmalloc s))"
  obtain r tbl sa where a: "?a = (r, tbl, sa)" by (metis prod_cases3)
  from assms init_ok [OF ok, of svc] a have "sched_data svc' = Some tbl" by auto
  moreover from assign_loop_tracked [OF a] have "conhash tbl = node_head tbl" by simp
  ultimately show ?thesis by blast
qed

lemma update_tracked:
  assumes "sched_data svc = Some tbl0" and "conhash tbl0 = node_head tbl0"
    and "ip_vs_ch_update_svc svc s = Some (r, svc', s')"
  shows "\<exists>tbl. sched_data svc' = Some tbl \<and> conhash tbl = node_head tbl"
proof -
  from update_Some_flush [OF assms(1,3)]
  obtain tf sf where f: "ip_vs_ch_flush tbl0 s = Some (tf, sf)" by blast
  have tf: "tf = \<lparr>count = 0, conhash = [], node_head = []\<rparr>"
    by (rule flush_tracked [OF f assms(2)])
  let ?a = "assign_loop (destinations svc) \<lparr>count = 0, conhash = [], node_head = []\<rparr> sf"
  obtain r1 tbl s1 where a: "?a = (r1, tbl, s1)" by (metis prod_cases3)
  from update_eq [OF assms(1) f] assms(3) tf a have "sched_data svc' = Some tbl" by auto
  moreover from assign_loop_tracked [OF a] have "conhash tbl = node_head tbl" by simp
  ultimately show ?thesis by blast
qed

subsection \<open>What the ring holds\<close>

lemma ch_node_dest: "dest (ch_node s d) = Some d"
  by (simp add: ch_node_def conhash_set_node_def)

lemma assign_conhash_live:
  assumes "assign_loop ds \<lparr>count = c, conhash = [], node_head = []\<rparr> sa = (r, tbl, s')"
    and "refcnt_only s sa" and "n \<in> set (conhash tbl)"
  shows "\<exists>d \<in> set ds. 0 <s weight (dests s d) \<and> n = ch_node s d \<and> dest n = Some d"
proof -
  from assign_loop_conhash_set [OF assms(1)] assms(3)
  have "n \<in> ch_node sa ` set (ch_live sa ds)" by auto
  then have "n \<in> ch_node s ` set (ch_live s ds)"
    by (simp add: ch_live_frame [OF assms(2)] ch_node_frame [OF assms(2)])
  then show ?thesis by (auto simp: ch_live_def ch_node_dest)
qed

text \<open>
  After an \<open>ip_vs_ch_init_svc\<close> that returned 0, and after an \<open>ip_vs_ch_update_svc\<close>
  that ran to its end on a table whose ring held exactly the nodes of its entry list,
  every node on the ring is the node of a listed destination of positive weight.
\<close>

lemma ring_only_live:
  "(ip_vs_ch_init_svc svc s = (0, svc', s') \<longrightarrow>
      (\<exists>tbl. sched_data svc' = Some tbl
         \<and> (\<forall>n \<in> set (conhash tbl). \<exists>d \<in> set (destinations svc).
               0 <s weight (dests s d) \<and> n = ch_node s d \<and> dest n = Some d)))
   \<and> (\<forall>tbl0. sched_data svc = Some tbl0 \<and> conhash tbl0 = node_head tbl0
               \<and> ip_vs_ch_update_svc svc s = Some (r, svc', s') \<longrightarrow>
      (\<exists>tbl. sched_data svc' = Some tbl
         \<and> (\<forall>n \<in> set (conhash tbl). \<exists>d \<in> set (destinations svc).
               0 <s weight (dests s d) \<and> n = ch_node s d \<and> dest n = Some d)))"
proof (intro conjI allI impI)
  assume i: "ip_vs_ch_init_svc svc s = (0, svc', s')"
  have ok: "fst (kmalloc s)" by (rule init_zero [OF i])
  let ?a = "assign_loop (destinations svc) \<lparr>count = 0, conhash = [], node_head = []\<rparr> (snd (kmalloc s))"
  obtain r1 tbl s1 where a: "?a = (r1, tbl, s1)" by (metis prod_cases3)
  from i init_ok [OF ok, of svc] a have sd: "sched_data svc' = Some tbl" by auto
  have "\<forall>n \<in> set (conhash tbl). \<exists>d \<in> set (destinations svc).
               0 <s weight (dests s d) \<and> n = ch_node s d \<and> dest n = Some d"
    using assign_conhash_live [OF a refcnt_only_kmalloc] by blast
  with sd show "\<exists>tbl. sched_data svc' = Some tbl
         \<and> (\<forall>n \<in> set (conhash tbl). \<exists>d \<in> set (destinations svc).
               0 <s weight (dests s d) \<and> n = ch_node s d \<and> dest n = Some d)"
    by blast
next
  fix tbl0
  assume h: "sched_data svc = Some tbl0 \<and> conhash tbl0 = node_head tbl0
               \<and> ip_vs_ch_update_svc svc s = Some (r, svc', s')"
  then have sd0: "sched_data svc = Some tbl0" and tr: "conhash tbl0 = node_head tbl0"
    and u: "ip_vs_ch_update_svc svc s = Some (r, svc', s')" by simp_all
  from update_Some_flush [OF sd0 u]
  obtain tf sf where f: "ip_vs_ch_flush tbl0 s = Some (tf, sf)" by blast
  have tf: "tf = \<lparr>count = 0, conhash = [], node_head = []\<rparr>"
    by (rule flush_tracked [OF f tr])
  let ?a = "assign_loop (destinations svc) \<lparr>count = 0, conhash = [], node_head = []\<rparr> sf"
  obtain r1 tbl s1 where a: "?a = (r1, tbl, s1)" by (metis prod_cases3)
  from update_eq [OF sd0 f] u tf a have sd: "sched_data svc' = Some tbl" by auto
  have "\<forall>n \<in> set (conhash tbl). \<exists>d \<in> set (destinations svc).
               0 <s weight (dests s d) \<and> n = ch_node s d \<and> dest n = Some d"
    using assign_conhash_live [OF a flush_effect(1) [OF f]] by blast
  with sd show "\<exists>tbl. sched_data svc' = Some tbl
         \<and> (\<forall>n \<in> set (conhash tbl). \<exists>d \<in> set (destinations svc).
               0 <s weight (dests s d) \<and> n = ch_node s d \<and> dest n = Some d)"
    by blast
qed

text \<open>
  Claim C5 does not hold of the code for an update of a table that has entries. The
  example table holds the nodes of the destinations 1 and 2; the weight of destination
  2 has since been set to 0. \<open>ip_vs_ch_flush\<close> releases the first entry and then reads
  its link; under an allocator that takes released objects over the call does not
  run to its end, and nothing is established about the ring that it leaves.
\<close>

theorem ch_update_ring_reads_released_entry:
  "sched_data ex_svc_bound = Some ex_tbl
   \<and> conhash ex_tbl = [ex_node1, ex_node2] \<and> node_head ex_tbl = [ex_node1, ex_node2]
   \<and> dest ex_node2 = Some 2 \<and> weight (dests ex_mem_d2_reuse 2) = 0
   \<and> \<not> kfree_keeps ex_mem_d2_reuse
   \<and> ip_vs_ch_flush ex_tbl ex_mem_d2_reuse = None
   \<and> ip_vs_ch_update_svc ex_svc_bound ex_mem_d2_reuse = None"
proof -
  have k: "\<not> kfree_keeps ex_mem_d2_reuse" by (simp add: ex_mem_d2_reuse_def)
  with ex_entries have f: "ip_vs_ch_flush ex_tbl ex_mem_d2_reuse = None"
    by (simp add: flush_None_iff)
  from update_None [OF ex_bound(1) f] k f show ?thesis
    by (simp add: ex_bound ex_tbl_def ex_node2_def ex_mem_d2_reuse_def ex_dests_d2_def)
qed

subsection \<open>What the scheduler depends on\<close>

lemma ch_key_ip: "ip sa = ip sa' \<Longrightarrow> ch_key sa sport = ch_key sa' sport"
  by (simp add: ch_key_def)

lemma ch_attempt_cong:
  assumes "count tbl = count tbl'" and "conhash tbl = conhash tbl'" and "ip sa = ip sa'"
  shows "ch_attempt lk a tbl sa i = ch_attempt lk a' tbl' sa' i"
  using assms by (simp add: ch_attempt_def ip_vs_ch_get_def ch_key_ip [of sa sa'])

lemma ch_skip_cong:
  assumes "\<forall>p. flags (dests s p) = flags (dests s' p) \<and> weight (dests s p) = weight (dests s' p)"
  shows "ch_skip s c = ch_skip s' c"
  using assms by (cases c) (simp_all add: ch_skip_def is_overloaded_def)

lemma sched_loop_cong:
  assumes "count tbl = count tbl'" and "conhash tbl = conhash tbl'" and "ip sa = ip sa'"
    and "\<forall>p. flags (dests s p) = flags (dests s' p) \<and> weight (dests s p) = weight (dests s' p)"
  shows "sched_loop lk a tbl s sa i = sched_loop lk a' tbl' s' sa' i"
proof -
  have "\<And>j. ch_attempt lk a tbl sa j = ch_attempt lk a' tbl' sa' j"
    by (rule ch_attempt_cong [OF assms(1-3)])
  moreover have "\<And>c. ch_skip s c = ch_skip s' c"
    by (rule ch_skip_cong [OF assms(4)])
  ultimately show ?thesis
    by (simp add: sched_loop_find assms(1) split: option.splits)
qed


text \<open>
  Claim C6. The result of \<open>ip_vs_ch_schedule\<close> is a function of the ring, of \<open>count\<close>,
  of the flags and weights of the destinations and of the packet's source address:
  two calls that agree on these return the same destination or both \<open>NULL\<close>, whatever
  else differs in the memory. A call leaves the memory as it was, so a repeated call
  is such a second call.
\<close>

theorem ch_schedule_deterministic:
  assumes "sched_data svc1 = Some tbl1" and "sched_data svc2 = Some tbl2"
    and "count tbl1 = count tbl2" and "conhash tbl1 = conhash tbl2"
    and "\<forall>p. flags (dests s1 p) = flags (dests s2 p) \<and> weight (dests s1 p) = weight (dests s2 p)"
    and "saddr skb1 = saddr skb2"
  shows "\<exists>r. ip_vs_ch_schedule lk svc1 s1 skb1 = Some (r, s1)
              \<and> ip_vs_ch_schedule lk svc2 s2 skb2 = Some (r, s2)"
proof -
  from assms(6) have "ip (saddr skb1) = ip (saddr skb2)" by simp
  from sched_loop_cong [OF assms(3,4) this assms(5)]
  have "sched_loop lk (af svc1) tbl1 s1 (saddr skb1) 0 = sched_loop lk (af svc2) tbl2 s2 (saddr skb2) 0" .
  with assms(1,2) show ?thesis
    by (simp add: ip_vs_ch_schedule_def)
qed

lemma ex_flags_weights:
  "\<forall>p. flags (dests ex_mem p) = flags (dests ex_mem_ref p)
       \<and> weight (dests ex_mem p) = weight (dests ex_mem_ref p)"
  by (simp add: ex_mem_def ex_mem_ref_def ex_dests_ref_def)

text \<open>
  The theorem at the example table, for two memories that differ in the reference
  counts.
\<close>

theorem ch_schedule_deterministic_witness:
  "sched_data ex_svc_bound = Some ex_tbl
   \<and> (\<forall>p. flags (dests ex_mem p) = flags (dests ex_mem_ref p)
            \<and> weight (dests ex_mem p) = weight (dests ex_mem_ref p))
   \<and> refcnt (dests ex_mem 1) \<noteq> refcnt (dests ex_mem_ref 1)
   \<and> map_option fst (ip_vs_ch_schedule ex_lookup ex_svc_bound ex_mem ex_skb)
       = map_option fst (ip_vs_ch_schedule ex_lookup ex_svc_bound ex_mem_ref ex_skb)
   \<and> ip_vs_ch_schedule ex_lookup ex_svc_bound ex_mem ex_skb \<noteq> None"
proof -
  from ch_schedule_deterministic
    [OF ex_bound(1) ex_bound(1) refl refl ex_flags_weights refl, of ex_lookup ex_skb]
  obtain r where "ip_vs_ch_schedule ex_lookup ex_svc_bound ex_mem ex_skb = Some (r, ex_mem)"
    and "ip_vs_ch_schedule ex_lookup ex_svc_bound ex_mem_ref ex_skb = Some (r, ex_mem_ref)"
    by blast
  moreover have "refcnt (dests ex_mem 1) \<noteq> refcnt (dests ex_mem_ref 1)"
    by (simp add: ex_defs)
  ultimately show ?thesis
    using ex_bound(1) ex_flags_weights by simp
qed

subsection \<open>A service without a destination of positive weight\<close>

lemma assign_loop_no_live:
  "ch_live s ds = [] \<Longrightarrow> assign_loop ds tbl s = (0, tbl, s)"
proof (induction ds)
  case Nil
  show ?case by (rule assign_loop_nil)
next
  case (Cons d ds)
  from Cons.prems have w: "\<not> 0 <s weight (dests s d)" and l: "ch_live s ds = []"
    by (simp_all add: ch_live_Cons split: if_splits)
  from Cons.IH [OF l] show ?case by (simp add: assign_loop_skip [OF w])
qed

lemma sched_loop_count0: "count tbl = 0 \<Longrightarrow> sched_loop lk a tbl s sa 0 = None"
  by (subst sched_loop.simps) simp

text \<open>
  When the table has no entry, or released memory keeps its contents, the update of a
  service without a destination of positive weight leaves the empty table, and the
  scheduler then finds nothing.
\<close>

lemma update_no_live:
  assumes "sched_data svc = Some tbl0" and "conhash tbl0 = node_head tbl0"
    and "\<forall>d \<in> set (destinations svc). weight (dests s d) \<le>s 0"
    and "node_head tbl0 = [] \<or> kfree_keeps s"
  shows "\<exists>tbl s'. ip_vs_ch_update_svc svc s = Some (0, svc\<lparr>sched_data := Some tbl\<rparr>, s')
           \<and> conhash tbl = [] \<and> node_head tbl = [] \<and> count tbl = 0
           \<and> (\<forall>lk m skb. ip_vs_ch_schedule lk (svc\<lparr>sched_data := Some tbl\<rparr>) m skb
                              = Some (None, m))"
proof -
  let ?e = "\<lparr>count = 0, conhash = [], node_head = []\<rparr> :: ip_vs_ch_bucket"
  from assms(4) flush_None_iff [of tbl0 s]
  obtain tf sf where f: "ip_vs_ch_flush tbl0 s = Some (tf, sf)" by fastforce
  have tf: "tf = ?e" by (rule flush_tracked [OF f assms(2)])
  have "ch_live s (destinations svc) = []"
    using assms(3) by (auto simp: ch_live_def filter_empty_conv signed.not_less)
  then have "ch_live sf (destinations svc) = []"
    by (simp add: ch_live_frame [OF flush_effect(1) [OF f]])
  then have a: "assign_loop (destinations svc) ?e sf = (0, ?e, sf)"
    by (rule assign_loop_no_live)
  have u: "ip_vs_ch_update_svc svc s = Some (0, svc\<lparr>sched_data := Some ?e\<rparr>, sf)"
    using update_eq [OF assms(1) f] by (simp add: tf a)
  have "\<forall>lk m skb. ip_vs_ch_schedule lk (svc\<lparr>sched_data := Some ?e\<rparr>) m skb = Some (None, m)"
    by (simp add: ip_vs_ch_schedule_def sched_loop_count0)
  with u show ?thesis
    by (intro exI [of _ ?e] exI [of _ sf]) simp
qed

text \<open>
  Claim C7 does not hold of the code. The bound example service has two entries on its
  table and every weight has been set to 0. \<open>ip_vs_ch_update_svc\<close> flushes first, and
  the flush reads the link of the entry it has just released: under an allocator that
  takes released objects over the call does not run to its end.
\<close>

theorem ch_update_no_live_reads_released_entry:
  "sched_data ex_svc_bound = Some ex_tbl \<and> node_head ex_tbl = [ex_node1, ex_node2]
   \<and> weight (dests ex_mem_down_reuse 1) \<le>s 0 \<and> weight (dests ex_mem_down_reuse 2) \<le>s 0
   \<and> \<not> kfree_keeps ex_mem_down_reuse
   \<and> ip_vs_ch_flush ex_tbl ex_mem_down_reuse = None
   \<and> ip_vs_ch_update_svc ex_svc_bound ex_mem_down_reuse = None"
proof -
  from ex_entries ex_keeps(3) have f: "ip_vs_ch_flush ex_tbl ex_mem_down_reuse = None"
    by (simp add: flush_None_iff)
  from update_None [OF ex_bound(1) f] f ex_keeps(3) show ?thesis
    by (simp add: ex_bound ex_tbl_def ex_defs word_sle_eq)
qed

subsection \<open>Updating twice\<close>










subsection \<open>Reference counts\<close>

lemma ch_refs_map_node: "ch_refs (map (ch_node s) ds) p = count_list ds p"
  by (induction ds) (simp_all add: ch_refs_def ch_node_dest)

lemma assign_refcnt:
  assumes "ip_vs_ch_assign tbl svc s = (r, tbl', s')"
  shows "refcnt (dests s' p) = refcnt (dests s p) + word_of_nat (ch_refs (node_head tbl') p)"
  using assign_loop_refcnt [of "destinations svc" "tbl\<lparr>node_head := []\<rparr>" s r tbl' s' p] assms
  by (simp add: ip_vs_ch_assign_def ch_refs_Nil)

lemma assign_entries:
  assumes "ip_vs_ch_assign tbl svc s = (0, tbl', s')"
  shows "node_head tbl' = map (ch_node s) (ch_live s (destinations svc))"
proof -
  from assms have a: "assign_loop (destinations svc) (tbl\<lparr>node_head := []\<rparr>) s = (0, tbl', s')"
    by (simp add: ip_vs_ch_assign_def)
  from assign_loop_prefix [OF a] show ?thesis by auto
qed

text \<open>
  \<open>ip_vs_ch_assign\<close> raises the reference count of a destination by the number of
  entries of the new list that point to it; when it returns 0 that is one per listed
  destination of positive weight. \<open>ip_vs_ch_schedule\<close> hands the memory back as it
  got it.
\<close>

lemma assign_refcnt_live:
  assumes "ip_vs_ch_assign tbl svc s = (0, tbl', s')"
  shows "refcnt (dests s' p)
           = refcnt (dests s p) + word_of_nat (count_list (ch_live s (destinations svc)) p)"
  using assign_refcnt [OF assms, of p] assign_entries [OF assms]
  by (simp add: ch_refs_map_node)

lemma schedule_mem: "ip_vs_ch_schedule lk svc s skb = Some (c, s') \<Longrightarrow> s' = s"
  by (auto simp: ip_vs_ch_schedule_def split: option.splits)

text \<open>
  A flush that runs to its end lowers the reference count of a destination by the
  number of entries that point to it, and a \<open>ip_vs_ch_done_svc\<close> that runs to its end
  after an \<open>ip_vs_ch_init_svc\<close> that returned 0 leaves every reference count as it was
  before the init.
\<close>

lemma init_done_refcnt:
  assumes "ip_vs_ch_init_svc svc s = (0, svci, si)"
    and "ip_vs_ch_done_svc svci si = Some (r, svcd, sd)"
  shows "r = 0 \<and> (\<forall>p. refcnt (dests sd p) = refcnt (dests s p))"
proof -
  have ok: "fst (kmalloc s)" by (rule init_zero [OF assms(1)])
  let ?a = "assign_loop (destinations svc) \<lparr>count = 0, conhash = [], node_head = []\<rparr> (snd (kmalloc s))"
  obtain ra tbl sa where a: "?a = (ra, tbl, sa)" by (metis prod_cases3)
  from assms(1) init_ok [OF ok, of svc] a
  have svci: "sched_data svci = Some tbl" and si: "si = sa" by auto
  from done_None [OF svci, of si] assms(2)
  obtain tf sf where f: "ip_vs_ch_flush tbl si = Some (tf, sf)" by fastforce
  from done_eq [OF svci f] assms(2) have r: "r = 0" and sd: "sd = sf" by simp_all
  have "\<forall>p. refcnt (dests sf p) = refcnt (dests s p)"
  proof
    fix p
    from assign_loop_refcnt [OF a, of p]
    have "refcnt (dests sa p) = refcnt (dests s p) + word_of_nat (ch_refs (node_head tbl) p)"
      by (simp add: ch_refs_Nil dests_kmalloc)
    with flush_effect(6) [OF f, of p] si show "refcnt (dests sf p) = refcnt (dests s p)"
      by simp
  qed
  with r sd show ?thesis by simp
qed

lemma ex_init_reuse:
  "ip_vs_ch_init_svc ex_svc ex_mem_reuse = (0, ex_svc_bound, ex_mem_init_reuse)"
proof -
  have "fst (ip_vs_ch_init_svc ex_svc ex_mem_reuse) = 0
      \<and> fst (snd (ip_vs_ch_init_svc ex_svc ex_mem_reuse)) = ex_svc_bound"
    by (simp add: ex_eval)
  then show ?thesis
    unfolding ex_mem_init_reuse_def by (metis prod.collapse)
qed

lemma ex_init_reuse_keeps: "\<not> kfree_keeps ex_mem_init_reuse"
proof -
  have ok: "fst (kmalloc ex_mem_reuse)" by (rule init_zero [OF ex_init_reuse])
  let ?a = "assign_loop (destinations ex_svc) \<lparr>count = 0, conhash = [], node_head = []\<rparr>
              (snd (kmalloc ex_mem_reuse))"
  obtain ra tbl sa where a: "?a = (ra, tbl, sa)" by (metis prod_cases3)
  from ex_init_reuse init_ok [OF ok, of ex_svc] a have "sa = ex_mem_init_reuse" by simp
  with assign_loop_keeps [OF a] kfree_keeps_kmalloc [of ex_mem_reuse] ex_keeps(2)
  show ?thesis by simp
qed

lemma ex_init_reuse_refcnt:
  "refcnt (dests ex_mem_init_reuse 1) = 2" "refcnt (dests ex_mem_init_reuse 2) = 2"
proof -
  have ok: "fst (kmalloc ex_mem_reuse)" by (rule init_zero [OF ex_init_reuse])
  let ?a = "assign_loop (destinations ex_svc) \<lparr>count = 0, conhash = [], node_head = []\<rparr>
              (snd (kmalloc ex_mem_reuse))"
  obtain ra tbl sa where a: "?a = (ra, tbl, sa)" by (metis prod_cases3)
  from ex_init_reuse init_ok [OF ok, of ex_svc] a
  have sa: "sa = ex_mem_init_reuse" and "ex_svc\<lparr>sched_data := Some tbl\<rparr> = ex_svc_bound"
    by simp_all
  then have tbl: "tbl = ex_tbl" by (simp add: ex_svc_def ex_svc_bound_def)
  have r: "ch_refs (node_head ex_tbl) 1 = 1" "ch_refs (node_head ex_tbl) 2 = 1"
    by (simp_all add: ch_refs_def ex_tbl_def ex_node1_def ex_node2_def)
  have c: "refcnt (dests ex_mem_reuse 1) = 1" "refcnt (dests ex_mem_reuse 2) = 1"
    by (simp_all add: ex_defs)
  from assign_loop_refcnt [OF a, of 1] show "refcnt (dests ex_mem_init_reuse 1) = 2"
    by (simp only: sa tbl r c dests_kmalloc) (simp add: ch_refs_Nil)
  from assign_loop_refcnt [OF a, of 2] show "refcnt (dests ex_mem_init_reuse 2) = 2"
    by (simp only: sa tbl r c dests_kmalloc) (simp add: ch_refs_Nil)
qed

text \<open>
  Claim C9 does not hold of the code. \<open>ip_vs_ch_init_svc\<close> on the example service
  returns 0 and takes one reference on each of the two destinations, through the two
  entries of the table. \<open>ip_vs_ch_done_svc\<close> flushes that table, and the flush reads
  the link of the entry it has just released: under an allocator that takes released
  objects over the call does not run to its end, so the references are not given back
  as the claim has it.
\<close>

theorem ch_done_reads_released_entry:
  "ip_vs_ch_init_svc ex_svc ex_mem_reuse = (0, ex_svc_bound, ex_mem_init_reuse)
   \<and> sched_data ex_svc_bound = Some ex_tbl \<and> node_head ex_tbl = [ex_node1, ex_node2]
   \<and> refcnt (dests ex_mem_reuse 1) = 1 \<and> refcnt (dests ex_mem_init_reuse 1) = 2
   \<and> refcnt (dests ex_mem_reuse 2) = 1 \<and> refcnt (dests ex_mem_init_reuse 2) = 2
   \<and> \<not> kfree_keeps ex_mem_init_reuse
   \<and> ip_vs_ch_flush ex_tbl ex_mem_init_reuse = None
   \<and> ip_vs_ch_done_svc ex_svc_bound ex_mem_init_reuse = None"
proof -
  from ex_entries ex_init_reuse_keeps have f: "ip_vs_ch_flush ex_tbl ex_mem_init_reuse = None"
    by (simp add: flush_None_iff)
  have c: "refcnt (dests ex_mem_reuse 1) = 1" "refcnt (dests ex_mem_reuse 2) = 1"
    by (simp_all add: ex_defs)
  have n: "node_head ex_tbl = [ex_node1, ex_node2]" by (simp add: ex_tbl_def)
  from done_None [OF ex_bound(1) f] f ex_init_reuse ex_init_reuse_keeps ex_init_reuse_refcnt
    ex_bound(1) c n
  show ?thesis by simp
qed

subsection \<open>Addresses enter through their first word only\<close>

text \<open>
  Claim C10. Two packets whose source addresses agree on the 32-bit \<open>ip\<close> member
  get the same result from \<open>ip_vs_ch_schedule\<close> in the same state, and two
  destinations whose addresses agree on that member get nodes with the same identity
  string.
\<close>

theorem ch_schedule_ip_only:
  "(ip (saddr skb1) = ip (saddr skb2) \<longrightarrow>
      ip_vs_ch_schedule lk svc s skb1 = ip_vs_ch_schedule lk svc s skb2)
   \<and> (ip (addr (dests s d1)) = ip (addr (dests s d2)) \<longrightarrow>
        iden (ch_node s d1) = iden (ch_node s d2))"
proof (intro conjI impI)
  assume e: "ip (saddr skb1) = ip (saddr skb2)"
  show "ip_vs_ch_schedule lk svc s skb1 = ip_vs_ch_schedule lk svc s skb2"
  proof (cases "sched_data svc")
    case None
    then show ?thesis by (simp add: ip_vs_ch_schedule_def)
  next
    case (Some tbl)
    have "sched_loop lk (af svc) tbl s (saddr skb1) 0 = sched_loop lk (af svc) tbl s (saddr skb2) 0"
      by (rule sched_loop_cong [OF refl refl e]) simp
    with Some show ?thesis by (simp add: ip_vs_ch_schedule_def)
  qed
next
  assume "ip (addr (dests s d1)) = ip (addr (dests s d2))"
  then show "iden (ch_node s d1) = iden (ch_node s d2)"
    by (simp add: ch_node_def conhash_set_node_def ch_node_iden_def)
qed

text \<open>
  The theorem at two source addresses that share the first word and differ in the
  second, and at two destinations that differ in the port.
\<close>

theorem ch_schedule_ip_only_witness:
  "ip (saddr ex_skb6a) = ip (saddr ex_skb6b) \<and> saddr ex_skb6a \<noteq> saddr ex_skb6b
   \<and> ip_vs_ch_schedule ex_lookup ex_svc_bound ex_mem ex_skb6a
       = ip_vs_ch_schedule ex_lookup ex_svc_bound ex_mem ex_skb6b
   \<and> ip (addr (dests ex_mem 2)) = ip (addr (dests ex_mem 3))
   \<and> port (dests ex_mem 2) \<noteq> port (dests ex_mem 3)
   \<and> iden (ch_node ex_mem 2) = iden (ch_node ex_mem 3)"
proof -
  have a: "ip (saddr ex_skb6a) = ip (saddr ex_skb6b)" and a': "saddr ex_skb6a \<noteq> saddr ex_skb6b"
    by (simp_all add: ex_skb6a_def ex_skb6b_def ip_def)
  have b: "ip (addr (dests ex_mem 2)) = ip (addr (dests ex_mem 3))"
    and b': "port (dests ex_mem 2) \<noteq> port (dests ex_mem 3)"
    by (simp_all add: ex_defs)
  note t = ch_schedule_ip_only [of ex_skb6a ex_skb6b ex_lookup ex_svc_bound ex_mem 2 3]
  from t a have "ip_vs_ch_schedule ex_lookup ex_svc_bound ex_mem ex_skb6a
       = ip_vs_ch_schedule ex_lookup ex_svc_bound ex_mem ex_skb6b" by blast
  moreover from t b have "iden (ch_node ex_mem 2) = iden (ch_node ex_mem 3)" by blast
  ultimately show ?thesis using a a' b b' by simp
qed

end
